theory Spec2Isabelle
  imports Main "HOL-Library.Sublist"
begin

section \<open>Strings\<close>

text \<open>
  A Python \<open>str\<close> is a sequence of code points; a code point is modelled as a natural
  number, so every Python string is some \<open>str\<close>. \<open>lit\<close> turns a literal of the
  source into its code points.
\<close>

type_synonym str = "nat list"

definition lit :: "string \<Rightarrow> str" where
  "lit s = map of_char s"

text \<open>
  \<open>str.count(sub)\<close> and \<open>str.replace(old, new)\<close> of the Python library: both scan
  from the left and take non-overlapping matches; with an empty needle \<open>count\<close> returns
  \<open>len(s) + 1\<close> and \<open>replace\<close> puts \<open>new\<close> before every character and at the end.
\<close>

function str_count :: "'a list \<Rightarrow> 'a list \<Rightarrow> int" where
  "str_count s sub =
     (if sub = [] then int (length s) + 1
      else if length s < length sub then 0
      else if take (length sub) s = sub
        then 1 + str_count (drop (length sub) s) sub
      else str_count (tl s) sub)"
  by pat_completeness auto
termination
  by (relation "measure (\<lambda>(s, sub). length s)") (auto simp: neq_Nil_conv)

function str_replace :: "'a list \<Rightarrow> 'a list \<Rightarrow> 'a list \<Rightarrow> 'a list" where
  "str_replace s old new =
     (if old = [] then new @ concat (map (\<lambda>c. c # new) s)
      else if length s < length old then s
      else if take (length old) s = old
        then new @ str_replace (drop (length old) s) old new
      else hd s # str_replace (tl s) old new)"
  by pat_completeness auto
termination
  by (relation "measure (\<lambda>(s, old, new). length s)") (auto simp: neq_Nil_conv)

declare str_count.simps [simp del] str_replace.simps [simp del]

text \<open>
  The specification's side: the positions at which the four characters \<open>2025\<close> stand
  in a content, independently of how \<open>str_count\<close> scans.
\<close>

definition occurs_at :: "str \<Rightarrow> nat \<Rightarrow> bool" where
  "occurs_at c i = (take 4 (drop i c) = lit ''2025'')"

definition occurrences :: "str \<Rightarrow> nat list" where
  "occurrences c = filter (occurs_at c) [0..<length c]"

section \<open>Files, exceptions and output\<close>

text \<open>
  A path is the list of its components. A directory tree is a listing of paths with what
  stands there: a directory (which may refuse to be listed) or a regular file with its
  permissions and its content as \<open>open(..., encoding='utf-8')\<close> presents it: the decoded
  text, or \<open>None\<close> when the bytes are not valid UTF-8. The order of the listing is the
  order in which the operating system reports the entries.
\<close>

type_synonym path = "str list"

datatype node =
    Dir (listable: bool)
  | File (readable: bool) (writable: bool) (decoded: "str option")

type_synonym fs = "(path \<times> node) list"

text \<open>The exceptions the program can meet; all are subclasses of \<open>Exception\<close>.\<close>

datatype exn =
    FileNotFoundError path
  | IsADirectoryError path
  | PermissionError path
  | UnicodeDecodeError path
  | ValueError path path

datatype mode = ModeR | ModeW

text \<open>One constructor for each \<open>print\<close> call of the source.\<close>

datatype line =
    Error_procesando path exn
  | OK path int
  | Rule_after_blank
  | Resumen
  | Archivos_actualizados int
  | Total_de_reemplazos int
  | Rule

text \<open>
  The world the program runs in: the directory tree, the lines written to standard
  output, and the log of every call of \<open>open\<close> with its mode.
\<close>

record world =
  files :: fs
  stdout :: "line list"
  opened :: "(path \<times> mode) list"

definition print :: "line \<Rightarrow> world \<Rightarrow> world" where
  "print l w = w\<lparr>stdout := stdout w @ [l]\<rparr>"

definition log_open :: "path \<Rightarrow> mode \<Rightarrow> world \<Rightarrow> world" where
  "log_open p m w = w\<lparr>opened := opened w @ [(p, m)]\<rparr>"

definition store :: "path \<Rightarrow> node \<Rightarrow> fs \<Rightarrow> fs" where
  "store p n t = map (\<lambda>(q, old). if q = p then (q, n) else (q, old)) t"

text \<open>
  \<open>with open(file_path, 'r', encoding='utf-8') as f: content = f.read()\<close>
\<close>

definition read_text :: "path \<Rightarrow> world \<Rightarrow> (exn + str) \<times> world" where
  "read_text p w =
     (let w1 = log_open p ModeR w in
      case map_of (files w) p of
        None \<Rightarrow> (Inl (FileNotFoundError p), w1)
      | Some (Dir l) \<Rightarrow> (Inl (IsADirectoryError p), w1)
      | Some (File r wr t) \<Rightarrow>
          if \<not> r then (Inl (PermissionError p), w1)
          else (case t of
                  None \<Rightarrow> (Inl (UnicodeDecodeError p), w1)
                | Some content \<Rightarrow> (Inr content, w1)))"

text \<open>
  \<open>with open(file_path, 'w', encoding='utf-8') as f: f.write(new_content)\<close>.
  The program opens for writing only a path that it has just read, so the branch of a
  missing path is never taken by it (\<open>open\<close> would create the file where the parent
  directory allows it).
\<close>

definition write_text :: "path \<Rightarrow> str \<Rightarrow> world \<Rightarrow> (exn + unit) \<times> world" where
  "write_text p s w =
     (let w1 = log_open p ModeW w in
      case map_of (files w) p of
        None \<Rightarrow> (Inl (FileNotFoundError p), w1)
      | Some (Dir l) \<Rightarrow> (Inl (IsADirectoryError p), w1)
      | Some (File r wr t) \<Rightarrow>
          if \<not> wr then (Inl (PermissionError p), w1)
          else (Inr (), w1\<lparr>files := store p (File r wr (Some s)) (files w1)\<rparr>))"

section \<open>update\_year\_in\_file\<close>

text \<open>The body of the \<open>try\<close> block: \<open>Inl\<close> is an exception raised inside it.\<close>

definition try_body :: "path \<Rightarrow> world \<Rightarrow> (exn + int) \<times> world" where
  "try_body file_path w =
     (case read_text file_path w of
        (Inl e, w1) \<Rightarrow> (Inl e, w1)
      | (Inr content, w1) \<Rightarrow>
          (let count_before = str_count content (lit ''2025'') in
           if count_before = 0 then (Inr 0, w1)
           else
             (let new_content = str_replace content (lit ''2025'') (lit ''2026'') in
              case write_text file_path new_content w1 of
                (Inl e, w2) \<Rightarrow> (Inl e, w2)
              | (Inr u, w2) \<Rightarrow> (Inr count_before, w2))))"

text \<open>
  The function with its handler \<open>except Exception as e\<close>: the result is what the caller
  receives, \<open>Inl\<close> an exception that leaves the function, \<open>Inr\<close> the returned value.
\<close>

definition update_year_in_file :: "path \<Rightarrow> world \<Rightarrow> (exn + int) \<times> world" where
  "update_year_in_file file_path w =
     (case try_body file_path w of
        (Inl e, w1) \<Rightarrow> (Inr 0, print (Error_procesando file_path e) w1)
      | (Inr n, w1) \<Rightarrow> (Inr n, w1))"

section \<open>main\<close>

definition base_dir :: path where
  "base_dir = [lit ''src'', lit ''content'', lit ''calculators'']"

text \<open>\<open>Path.relative_to\<close> raises \<open>ValueError\<close> on a path that is not below the other.\<close>

definition relative_to :: "path \<Rightarrow> path \<Rightarrow> exn + path" where
  "relative_to p other =
     (if prefix other p then Inr (drop (length other) p) else Inl (ValueError p other))"

definition name :: "path \<Rightarrow> str" where
  "name p = (if p = [] then [] else last p)"

definition endswith :: "str \<Rightarrow> str \<Rightarrow> bool" where
  "endswith s suf = (length suf \<le> length s \<and> drop (length s - length suf) s = suf)"

text \<open>The pattern \<open>*.mdx\<close>: any characters, then the four characters \<open>.mdx\<close>.\<close>

definition matches_mdx :: "str \<Rightarrow> bool" where
  "matches_mdx n = endswith n (lit ''.mdx'')"

text \<open>
  \<open>Path.rglob('*.mdx')\<close> of pathlib. It yields nothing when the root is not a directory,
  it skips a directory whose listing is refused (the \<open>PermissionError\<close> is swallowed
  inside pathlib), and it yields no path twice. \<open>scanned t root p\<close> says that every
  directory from the root down to the parent of \<open>p\<close> is a directory that can be listed.
  Symbolic links, and a root that cannot even be examined because a directory above it
  refuses the search, are outside this model.
\<close>

definition scanned :: "fs \<Rightarrow> path \<Rightarrow> path \<Rightarrow> bool" where
  "scanned t root p =
     list_all (\<lambda>q. map_of t q = Some (Dir True))
       (filter (\<lambda>q. prefix root q \<and> q \<noteq> p) (prefixes p))"

definition rglob_mdx :: "fs \<Rightarrow> path \<Rightarrow> path list" where
  "rglob_mdx t root =
     (case map_of t root of
        Some (Dir l) \<Rightarrow>
          remdups (filter (\<lambda>p. strict_prefix root p \<and> scanned t root p \<and> matches_mdx (name p))
                     (map fst t))
      | _ \<Rightarrow> [])"

text \<open>
  The \<open>for\<close> loop of \<open>main\<close> over the enumerated paths, with the two counters. \<open>Inl\<close>
  is an exception that reaches \<open>main\<close>, which has no handler.
\<close>

fun loop :: "path list \<Rightarrow> int \<times> int \<Rightarrow> world \<Rightarrow> (exn + int \<times> int) \<times> world" where
  "loop [] (total_files, total_replacements) w = (Inr (total_files, total_replacements), w)"
| "loop (mdx_file # rest) (total_files, total_replacements) w =
     (case update_year_in_file mdx_file w of
        (Inl e, w1) \<Rightarrow> (Inl e, w1)
      | (Inr replacements, w1) \<Rightarrow>
          if replacements > 0 then
            (case relative_to mdx_file base_dir of
               Inl e \<Rightarrow> (Inl e, w1)
             | Inr rel \<Rightarrow>
                 loop rest (total_files + 1, total_replacements + replacements)
                   (print (OK rel replacements) w1))
          else loop rest (total_files, total_replacements) w1)"

definition main :: "world \<Rightarrow> (exn + unit) \<times> world" where
  "main w =
     (case loop (rglob_mdx (files w) base_dir) (0, 0) w of
        (Inl e, w1) \<Rightarrow> (Inl e, w1)
      | (Inr (total_files, total_replacements), w1) \<Rightarrow>
          (Inr (),
           print Rule
             (print (Total_de_reemplazos total_replacements)
               (print (Archivos_actualizados total_files)
                 (print Resumen
                   (print Rule_after_blank w1))))))"

section \<open>Notions used to state the properties\<close>

text \<open>
  What a file is worth to the run: the number of occurrences in a regular file that can
  be both read and written, and 0 for everything else.
\<close>

definition yield_of :: "node option \<Rightarrow> int" where
  "yield_of x =
     (case x of
        Some (File r wr (Some c)) \<Rightarrow> if r \<and> wr then str_count c (lit ''2025'') else 0
      | _ \<Rightarrow> 0)"

text \<open>
  The per-file lines of the output, and the count each of them shows.
\<close>

fun is_OK :: "line \<Rightarrow> bool" where
  "is_OK (OK p n) = True"
| "is_OK l = False"

fun ok_count :: "line \<Rightarrow> int" where
  "ok_count (OK p n) = n"
| "ok_count l = 0"

text \<open>
  The values that \<open>update_year_in_file\<close> returns during the loop, file by file, with the
  world threaded exactly as \<open>loop\<close> threads it.
\<close>

fun returned :: "path list \<Rightarrow> world \<Rightarrow> (path \<times> int) list" where
  "returned [] w = []"
| "returned (mdx_file # rest) w =
     (case update_year_in_file mdx_file w of
        (Inl e, w1) \<Rightarrow> []
      | (Inr replacements, w1) \<Rightarrow>
          (mdx_file, replacements) #
          (if replacements > 0 then
             (case relative_to mdx_file base_dir of
                Inl e \<Rightarrow> []
              | Inr rel \<Rightarrow> returned rest (print (OK rel replacements) w1))
           else returned rest w1))"

text \<open>
  Two listings with the same paths and the same directories.
\<close>

definition same_tree :: "fs \<Rightarrow> fs \<Rightarrow> bool" where
  "same_tree t t' =
     (map fst t' = map fst t \<and> (\<forall>q l. map_of t' q = Some (Dir l) \<longleftrightarrow> map_of t q = Some (Dir l)))"



text \<open>
  The five lines of the summary block.
\<close>

definition summary :: "int \<Rightarrow> int \<Rightarrow> line list" where
  "summary total_files total_replacements =
     [Rule_after_blank, Resumen, Archivos_actualizados total_files,
      Total_de_reemplazos total_replacements, Rule]"



definition absent_world :: world where
  "absent_world =
     \<lparr>files = [([lit ''b.mdx''], File True True (Some (lit ''no year here'')))],
      stdout = [], opened = []\<rparr>"

definition run_world :: world where
  "run_world =
     \<lparr>files =
        [(base_dir, Dir True),
         (base_dir @ [lit ''a.mdx''], File True True (Some (lit ''2025''))),
         (base_dir @ [lit ''b.mdx''], File True True (Some (lit ''none''))),
         (base_dir @ [lit ''c.txt''], File True True (Some (lit ''2025'')))],
      stdout = [], opened = []\<rparr>"

text \<open>
  The length of the text of a regular file.
\<close>

definition content_length :: "node option \<Rightarrow> nat option" where
  "content_length x =
     (case x of Some (File r wr (Some c)) \<Rightarrow> Some (length c) | _ \<Rightarrow> None)"

text \<open>
  The example of the specification: \<open>a.mdx\<close> with the year twice, \<open>b.mdx\<close> without it
  and \<open>c.txt\<close>, which the pattern does not match.
\<close>

definition spec_example :: world where
  "spec_example =
     \<lparr>files =
        [(base_dir, Dir True),
         (base_dir @ [lit ''a.mdx''],
            File True True (Some (lit ''Copyright 2025. Valid through 2025.''))),
         (base_dir @ [lit ''b.mdx''], File True True (Some (lit ''no year here''))),
         (base_dir @ [lit ''c.txt''], File True True (Some (lit ''2025'')))],
      stdout = [], opened = []\<rparr>"

section \<open>Counting and replacing the year\<close>

lemma lit_2025: "lit ''2025'' = [50, 48, 50, 53]"
  by (simp add: lit_def)

lemma lit_2026: "lit ''2026'' = [50, 48, 50, 54]"
  by (simp add: lit_def)

lemma scan_induct [case_names Nil hit miss]:
  assumes "P []"
    and "\<And>r. P r \<Longrightarrow> P (lit ''2025'' @ r)"
    and "\<And>x xs. take 4 (x # xs) \<noteq> lit ''2025'' \<Longrightarrow> P xs \<Longrightarrow> P (x # xs)"
  shows "P s"
proof (induction s rule: length_induct)
  case (1 s)
  show ?case
  proof (cases s)
    case Nil
    then show ?thesis using assms(1) by simp
  next
    case (Cons x xs)
    show ?thesis
    proof (cases "take 4 s = lit ''2025''")
      case True
      then have s: "s = lit ''2025'' @ drop 4 s"
        by (metis append_take_drop_id)
      have "length (drop 4 s) < length s"
        using Cons by simp
      then have "P (drop 4 s)" using 1 by blast
      then show ?thesis using assms(2) s by metis
    next
      case False
      have "P xs" using 1 Cons by simp
      then show ?thesis using assms(3) False Cons by simp
    qed
  qed
qed

lemma length_lit_2025: "length (lit ''2025'') = 4"
  by (simp add: lit_def)

lemma length_lit_2026: "length (lit ''2026'') = 4"
  by (simp add: lit_def)

lemma lit_2025_neq_Nil: "lit ''2025'' \<noteq> []"
  by (simp add: lit_def)

lemma str_count_short_gen:
  "sub \<noteq> [] \<Longrightarrow> length s < length sub \<Longrightarrow> str_count s sub = 0"
  by (subst str_count.simps) simp

lemma str_count_hit_gen:
  "sub \<noteq> [] \<Longrightarrow> str_count (sub @ r) sub = 1 + str_count r sub"
  by (subst str_count.simps) simp

lemma str_count_miss_gen:
  "sub \<noteq> [] \<Longrightarrow> length sub \<le> length s \<Longrightarrow> take (length sub) s \<noteq> sub \<Longrightarrow>
     str_count s sub = str_count (tl s) sub"
  by (subst str_count.simps) simp

lemma str_replace_short_gen:
  "old \<noteq> [] \<Longrightarrow> length s < length old \<Longrightarrow> str_replace s old new = s"
  by (subst str_replace.simps) simp

lemma str_replace_hit_gen:
  "old \<noteq> [] \<Longrightarrow> str_replace (old @ r) old new = new @ str_replace r old new"
  by (subst str_replace.simps) simp

lemma str_replace_miss_gen:
  "old \<noteq> [] \<Longrightarrow> length old \<le> length s \<Longrightarrow> take (length old) s \<noteq> old \<Longrightarrow>
     str_replace s old new = hd s # str_replace (tl s) old new"
  by (subst str_replace.simps) simp

lemma str_count_short: "length s < 4 \<Longrightarrow> str_count s (lit ''2025'') = 0"
  by (simp add: str_count_short_gen lit_2025_neq_Nil length_lit_2025)

lemma str_count_hit:
  "str_count (lit ''2025'' @ r) (lit ''2025'') = 1 + str_count r (lit ''2025'')"
  by (simp add: str_count_hit_gen lit_2025_neq_Nil)

lemma str_count_miss:
  assumes "take 4 (x # xs) \<noteq> lit ''2025''"
  shows "str_count (x # xs) (lit ''2025'') = str_count xs (lit ''2025'')"
proof (cases "length (x # xs) < 4")
  case True
  then have "length xs < 4" by simp
  with True show ?thesis by (simp only: str_count_short)
next
  case False
  then have "length (lit ''2025'') \<le> length (x # xs)"
    by (simp add: length_lit_2025)
  moreover have "take (length (lit ''2025'')) (x # xs) \<noteq> lit ''2025''"
    using assms by (simp only: length_lit_2025 not_False_eq_True)
  ultimately have "str_count (x # xs) (lit ''2025'') = str_count (tl (x # xs)) (lit ''2025'')"
    using lit_2025_neq_Nil by (rule str_count_miss_gen [rotated])
  then show ?thesis by simp
qed

lemma str_replace_short:
  "length s < 4 \<Longrightarrow> str_replace s (lit ''2025'') (lit ''2026'') = s"
  by (simp add: str_replace_short_gen lit_2025_neq_Nil length_lit_2025)

lemma str_replace_hit:
  "str_replace (lit ''2025'' @ r) (lit ''2025'') (lit ''2026'') =
     lit ''2026'' @ str_replace r (lit ''2025'') (lit ''2026'')"
  by (simp add: str_replace_hit_gen lit_2025_neq_Nil)

lemma str_replace_miss:
  assumes "take 4 (x # xs) \<noteq> lit ''2025''"
  shows "str_replace (x # xs) (lit ''2025'') (lit ''2026'') =
     x # str_replace xs (lit ''2025'') (lit ''2026'')"
proof (cases "length (x # xs) < 4")
  case True
  then have "length xs < 4" by simp
  with True show ?thesis by (simp only: str_replace_short)
next
  case False
  then have "length (lit ''2025'') \<le> length (x # xs)"
    by (simp add: length_lit_2025)
  moreover have "take (length (lit ''2025'')) (x # xs) \<noteq> lit ''2025''"
    using assms by (simp only: length_lit_2025 not_False_eq_True)
  ultimately have "str_replace (x # xs) (lit ''2025'') (lit ''2026'') =
      hd (x # xs) # str_replace (tl (x # xs)) (lit ''2025'') (lit ''2026'')"
    using lit_2025_neq_Nil by (rule str_replace_miss_gen [rotated])
  then show ?thesis by simp
qed

lemma occurs_at_Cons_Suc: "occurs_at (x # xs) (Suc i) = occurs_at xs i"
  by (simp add: occurs_at_def)

lemma occurs_at_0: "occurs_at s 0 = (take 4 s = lit ''2025'')"
  by (simp add: occurs_at_def)

lemma occurrences_Cons:
  "occurrences (x # xs) =
     (if take 4 (x # xs) = lit ''2025'' then [0] else []) @ map Suc (occurrences xs)"
proof -
  have "[0..<length (x # xs)] = 0 # map Suc [0..<length xs]"
    by (simp add: upt_conv_Cons map_Suc_upt del: upt_Suc)
  then show ?thesis
    by (simp add: occurrences_def filter_map comp_def occurs_at_Cons_Suc occurs_at_0)
qed

lemma occurrences_Nil: "occurrences [] = []"
  by (simp add: occurrences_def)

lemma length_occurrences_hit:
  "length (occurrences (lit ''2025'' @ r)) = Suc (length (occurrences r))"
  by (simp add: lit_2025 occurrences_Cons)

lemma str_count_occurrences:
  "str_count c (lit ''2025'') = int (length (occurrences c))"
proof (induction c rule: scan_induct)
  case Nil
  then show ?case by (simp add: str_count_short occurrences_Nil)
next
  case (hit r)
  then show ?case by (simp add: str_count_hit length_occurrences_hit)
next
  case (miss x xs)
  then show ?case by (simp add: str_count_miss occurrences_Cons)
qed

lemma length_str_replace:
  "length (str_replace c (lit ''2025'') (lit ''2026'')) = length c"
proof (induction c rule: scan_induct)
  case Nil
  then show ?case by (simp add: str_replace_short)
next
  case (hit r)
  then show ?case by (simp add: str_replace_hit length_lit_2025 length_lit_2026)
next
  case (miss x xs)
  then show ?case by (simp add: str_replace_miss)
qed

lemma occurs_at_hit_0: "occurs_at (lit ''2025'' @ r) 0"
  by (simp add: occurs_at_def length_lit_2025)

lemma occurs_at_hit_inner:
  "\<not> occurs_at (lit ''2025'' @ r) (Suc 0)"
  "\<not> occurs_at (lit ''2025'' @ r) (Suc (Suc 0))"
  "\<not> occurs_at (lit ''2025'' @ r) (Suc (Suc (Suc 0)))"
  by (simp_all add: occurs_at_def lit_2025 take_Cons')

lemma occurs_at_hit_shift: "occurs_at (lit ''2025'' @ r) (i + 4) = occurs_at r i"
  by (simp add: occurs_at_def length_lit_2025)

lemma str_replace_nth:
  "j < length c \<Longrightarrow>
     str_replace c (lit ''2025'') (lit ''2026'') ! j =
       (if 3 \<le> j \<and> occurs_at c (j - 3) then 54 else c ! j)"
proof (induction c arbitrary: j rule: scan_induct)
  case Nil
  then show ?case by simp
next
  case (hit r)
  let ?r' = "str_replace r (lit ''2025'') (lit ''2026'')"
  have rep: "str_replace (lit ''2025'' @ r) (lit ''2025'') (lit ''2026'') = lit ''2026'' @ ?r'"
    by (rule str_replace_hit)
  consider "j < 3" | "j = 3" | "4 \<le> j" "j < 7" | "7 \<le> j" by linarith
  then show ?case
  proof cases
    case 1
    then have "j = 0 \<or> j = 1 \<or> j = 2" by linarith
    then show ?thesis using rep by (auto simp: lit_2025 lit_2026)
  next
    case 2
    then show ?thesis using rep occurs_at_hit_0 [of r] by (simp add: lit_2025 lit_2026)
  next
    case 3
    then have j: "j = 4 \<or> j = 5 \<or> j = 6" by linarith
    have "j - 4 < length r" using hit.prems 3 by (simp add: length_lit_2025)
    moreover have "\<not> 3 \<le> j - 4" using 3 by linarith
    ultimately have "?r' ! (j - 4) = r ! (j - 4)"
      using hit.IH [of "j - 4"] by simp
    moreover have "\<not> occurs_at (lit ''2025'' @ r) (j - 3)"
      using j occurs_at_hit_inner [of r] by (auto simp: numeral_eq_Suc)
    ultimately show ?thesis using rep 3
      by (simp add: nth_append length_lit_2025 length_lit_2026)
  next
    case 4
    have "j - 4 < length r" using hit.prems 4 by (simp add: length_lit_2025)
    then have "?r' ! (j - 4) = (if 3 \<le> j - 4 \<and> occurs_at r (j - 4 - 3) then 54 else r ! (j - 4))"
      by (rule hit.IH)
    moreover have "occurs_at (lit ''2025'' @ r) (j - 3) = occurs_at r (j - 4 - 3)"
      using occurs_at_hit_shift [of r "j - 7"] 4 by simp
    moreover have "3 \<le> j - 4" "3 \<le> j" "\<not> j < 4" using 4 by linarith+
    ultimately show ?thesis using rep 4
      by (simp add: nth_append length_lit_2025 length_lit_2026)
  qed
next
  case (miss x xs)
  have rep: "str_replace (x # xs) (lit ''2025'') (lit ''2026'') =
      x # str_replace xs (lit ''2025'') (lit ''2026'')"
    using miss.hyps by (rule str_replace_miss)
  show ?case
  proof (cases j)
    case 0
    then show ?thesis using rep by simp
  next
    case (Suc k)
    then have k: "k < length xs" using miss.prems by simp
    have IH: "str_replace xs (lit ''2025'') (lit ''2026'') ! k =
        (if 3 \<le> k \<and> occurs_at xs (k - 3) then 54 else xs ! k)"
      using k by (rule miss.IH)
    show ?thesis
    proof (cases "k < 3")
      case True
      have no0: "\<not> occurs_at (x # xs) 0"
        using miss.hyps by (simp add: occurs_at_0)
      have "j - 3 = 0" using True Suc by simp
      then have neg: "\<not> (3 \<le> j \<and> occurs_at (x # xs) (j - 3))"
        using no0 by simp
      have "str_replace (x # xs) (lit ''2025'') (lit ''2026'') ! j = xs ! k"
        using rep Suc IH True by simp
      moreover have "(x # xs) ! j = xs ! k" using Suc by simp
      ultimately show ?thesis by (simp only: neg if_False)
    next
      case False
      then have "j - 3 = Suc (k - 3)" using Suc by simp
      then have "occurs_at (x # xs) (j - 3) = occurs_at xs (k - 3)"
        by (simp add: occurs_at_Cons_Suc)
      then show ?thesis using rep Suc IH False by simp
    qed
  qed
qed

lemma occurs_at_nth:
  "occurs_at c i \<longleftrightarrow>
     i + 4 \<le> length c \<and> c ! i = 50 \<and> c ! (i + 1) = 48 \<and> c ! (i + 2) = 50 \<and> c ! (i + 3) = 53"
proof
  assume a: "occurs_at c i"
  then have t: "take 4 (drop i c) = [50, 48, 50, 53]"
    by (simp add: occurs_at_def lit_2025)
  then have "length (take 4 (drop i c)) = 4" by simp
  then have len: "i + 4 \<le> length c" by simp
  have nth: "c ! (i + k) = [50, 48, 50, 53] ! k" if "k < 4" for k
  proof -
    have "take 4 (drop i c) ! k = c ! (i + k)" using that len by simp
    then show ?thesis using t by simp
  qed
  have "c ! (i + 0) = 50" "c ! (i + 1) = 48" "c ! (i + 2) = 50" "c ! (i + 3) = 53"
    using nth [of 0] nth [of 1] nth [of 2] nth [of 3] by simp_all
  with len show "i + 4 \<le> length c \<and> c ! i = 50 \<and> c ! (i + 1) = 48 \<and> c ! (i + 2) = 50 \<and> c ! (i + 3) = 53"
    by simp
next
  assume a: "i + 4 \<le> length c \<and> c ! i = 50 \<and> c ! (i + 1) = 48 \<and> c ! (i + 2) = 50 \<and> c ! (i + 3) = 53"
  have "take 4 (drop i c) = [50, 48, 50, 53]"
  proof (rule nth_equalityI)
    have "4 \<le> length c - i" using a by linarith
    then show "length (take 4 (drop i c)) = length [50, 48, 50, 53 :: nat]"
      by (simp add: min_absorb2)
  next
    fix k assume "k < length (take 4 (drop i c))"
    then have k: "k < 4" by simp
    then have "k = 0 \<or> k = 1 \<or> k = 2 \<or> k = 3" by linarith
    then show "take 4 (drop i c) ! k = [50, 48, 50, 53] ! k"
      using a by auto
  qed
  then show "occurs_at c i" by (simp add: occurs_at_def lit_2025)
qed

lemma no_occurrence_after_replace:
  "\<not> occurs_at (str_replace c (lit ''2025'') (lit ''2026'')) i"
proof
  let ?c' = "str_replace c (lit ''2025'') (lit ''2026'')"
  assume "occurs_at ?c' i"
  then have o: "i + 4 \<le> length ?c'" "?c' ! i = 50" "?c' ! (i + 1) = 48" "?c' ! (i + 2) = 50"
      "?c' ! (i + 3) = 53"
    by (simp_all add: occurs_at_nth)
  have len: "i + 4 \<le> length c" using o(1) by (simp add: length_str_replace)
  have same: "?c' ! j = 54 \<or> ?c' ! j = c ! j" if "j < length c" for j
    using str_replace_nth [OF that] by simp
  have "c ! i = 50" using same [of i] o len by simp
  moreover have "c ! (i + 1) = 48" using same [of "i + 1"] o len by simp
  moreover have "c ! (i + 2) = 50" using same [of "i + 2"] o len by simp
  moreover have "c ! (i + 3) = 53" using same [of "i + 3"] o len by simp
  ultimately have "occurs_at c i" using len by (simp add: occurs_at_nth)
  then have "?c' ! (i + 3) = 54"
    using str_replace_nth [of "i + 3" c] len by simp
  then show False using o(5) by simp
qed

lemma occurrences_after_replace:
  "occurrences (str_replace c (lit ''2025'') (lit ''2026'')) = []"
  by (simp add: occurrences_def no_occurrence_after_replace)

lemma str_count_after_replace:
  "str_count (str_replace c (lit ''2025'') (lit ''2026'')) (lit ''2025'') = 0"
  by (simp add: str_count_occurrences occurrences_after_replace)

section \<open>One file\<close>


lemma map_of_store:
  "map_of (store p n t) q = (if q = p then map_option (\<lambda>_. n) (map_of t p) else map_of t q)"
  by (induction t) (auto simp: store_def)

lemma map_fst_store: "map fst (store p n t) = map fst t"
  by (induction t) (auto simp: store_def)

lemma files_print [simp]: "files (print l w) = files w"
  and stdout_print [simp]: "stdout (print l w) = stdout w @ [l]"
  and opened_print [simp]: "opened (print l w) = opened w"
  by (simp_all add: print_def)

lemma files_log_open [simp]: "files (log_open p m w) = files w"
  and stdout_log_open [simp]: "stdout (log_open p m w) = stdout w"
  and opened_log_open [simp]: "opened (log_open p m w) = opened w @ [(p, m)]"
  by (simp_all add: log_open_def)


lemma read_text_Inr:
  "fst (read_text p w) = Inr c \<longleftrightarrow> (\<exists>wr. map_of (files w) p = Some (File True wr (Some c)))"
  by (auto simp: read_text_def Let_def split: option.splits node.splits)

lemma try_body_cases:
  "try_body p w =
     (case map_of (files w) p of
        None \<Rightarrow> (Inl (FileNotFoundError p), log_open p ModeR w)
      | Some (Dir l) \<Rightarrow> (Inl (IsADirectoryError p), log_open p ModeR w)
      | Some (File r wr t) \<Rightarrow>
          if \<not> r then (Inl (PermissionError p), log_open p ModeR w)
          else (case t of
             None \<Rightarrow> (Inl (UnicodeDecodeError p), log_open p ModeR w)
           | Some c \<Rightarrow>
               if str_count c (lit ''2025'') = 0 then (Inr 0, log_open p ModeR w)
               else if \<not> wr
                 then (Inl (PermissionError p), log_open p ModeW (log_open p ModeR w))
               else (Inr (str_count c (lit ''2025'')),
                     (log_open p ModeW (log_open p ModeR w))
                       \<lparr>files := store p (File r wr (Some (str_replace c (lit ''2025'') (lit ''2026''))))
                                   (files w)\<rparr>)))"
  by (simp add: try_body_def read_text_def write_text_def Let_def
      split: option.splits node.splits)

lemma update_returns: "fst (update_year_in_file p w) = Inr (yield_of (map_of (files w) p))"
  by (simp add: update_year_in_file_def try_body_cases yield_of_def
      split: option.splits node.splits)

lemma update_files:
  "files (snd (update_year_in_file p w)) =
     (case map_of (files w) p of
        Some (File True True (Some c)) \<Rightarrow>
          if str_count c (lit ''2025'') = 0 then files w
          else store p (File True True (Some (str_replace c (lit ''2025'') (lit ''2026'')))) (files w)
      | _ \<Rightarrow> files w)"
  by (simp add: update_year_in_file_def try_body_cases
      split: option.splits node.splits bool.splits)

lemma update_eq:
  "update_year_in_file p w = (Inr (yield_of (map_of (files w) p)), snd (update_year_in_file p w))"
  using update_returns [of p w] by (cases "update_year_in_file p w") simp


lemma update_stdout:
  "\<exists>errs. stdout (snd (update_year_in_file p w)) = stdout w @ errs \<and> filter is_OK errs = []"
  by (simp add: update_year_in_file_def try_body_cases split: option.splits node.splits)

lemma update_opened:
  "\<exists>new. opened (snd (update_year_in_file p w)) = opened w @ new \<and> fst ` set new \<subseteq> {p}"
  by (simp add: update_year_in_file_def try_body_cases split: option.splits node.splits)

lemma update_map_of_other:
  "q \<noteq> p \<Longrightarrow> map_of (files (snd (update_year_in_file p w))) q = map_of (files w) q"
  by (simp add: update_files map_of_store split: option.splits node.splits bool.splits)

lemma relative_to_base: "prefix base_dir p \<Longrightarrow> relative_to p base_dir = Inr (drop (length base_dir) p)"
  by (simp add: relative_to_def)

lemma loop_master:
  assumes "\<forall>p\<in>set ps. prefix base_dir p"
  shows "\<exists>w' out.
      loop ps (tf, tr) w =
        (Inr (tf + int (length (filter (\<lambda>(p, n). 0 < n) (returned ps w))),
              tr + sum_list (map snd (filter (\<lambda>(p, n). 0 < n) (returned ps w)))), w') \<and>
      stdout w' = stdout w @ out \<and>
      filter is_OK out =
        map (\<lambda>(p, n). OK (drop (length base_dir) p) n) (filter (\<lambda>(p, n). 0 < n) (returned ps w)) \<and>
      map fst (returned ps w) = ps"
  using assms
proof (induction ps arbitrary: tf tr w)
  case Nil
  then show ?case by simp
next
  case (Cons p rest)
  let ?n = "yield_of (map_of (files w) p)"
  define w1 where "w1 = snd (update_year_in_file p w)"
  have upd: "update_year_in_file p w = (Inr ?n, w1)"
    unfolding w1_def by (rule update_eq)
  have rel: "relative_to p base_dir = Inr (drop (length base_dir) p)"
    using Cons.prems by (simp add: relative_to_base)
  have rest: "\<forall>q\<in>set rest. prefix base_dir q" using Cons.prems by simp
  obtain errs where errs: "stdout w1 = stdout w @ errs" "filter is_OK errs = []"
    unfolding w1_def using update_stdout by blast
  show ?case
  proof (cases "0 < ?n")
    case True
    let ?w2 = "print (OK (drop (length base_dir) p) ?n) w1"
    from Cons.IH [OF rest, of "tf + 1" "tr + ?n" ?w2]
    obtain w' out where ih:
      "loop rest (tf + 1, tr + ?n) ?w2 =
        (Inr (tf + 1 + int (length (filter (\<lambda>(p, n). 0 < n) (returned rest ?w2))),
              tr + ?n + sum_list (map snd (filter (\<lambda>(p, n). 0 < n) (returned rest ?w2)))), w')"
      "stdout w' = stdout ?w2 @ out"
      "filter is_OK out =
        map (\<lambda>(p, n). OK (drop (length base_dir) p) n) (filter (\<lambda>(p, n). 0 < n) (returned rest ?w2))"
      "map fst (returned rest ?w2) = rest"
      by blast
    have ret: "returned (p # rest) w = (p, ?n) # returned rest ?w2"
      using upd rel True by simp
    have lp: "loop (p # rest) (tf, tr) w = loop rest (tf + 1, tr + ?n) ?w2"
      using upd rel True by simp
    have out: "stdout w' = stdout w @ (errs @ OK (drop (length base_dir) p) ?n # out)"
      using ih(2) errs(1) by simp
    show ?thesis
      apply (rule exI [of _ w'])
      apply (rule exI [of _ "errs @ OK (drop (length base_dir) p) ?n # out"])
      using lp ih ret out errs(2) True by simp
  next
    case False
    from Cons.IH [OF rest, of tf tr w1]
    obtain w' out where ih:
      "loop rest (tf, tr) w1 =
        (Inr (tf + int (length (filter (\<lambda>(p, n). 0 < n) (returned rest w1))),
              tr + sum_list (map snd (filter (\<lambda>(p, n). 0 < n) (returned rest w1)))), w')"
      "stdout w' = stdout w1 @ out"
      "filter is_OK out =
        map (\<lambda>(p, n). OK (drop (length base_dir) p) n) (filter (\<lambda>(p, n). 0 < n) (returned rest w1))"
      "map fst (returned rest w1) = rest"
      by blast
    have ret: "returned (p # rest) w = (p, ?n) # returned rest w1"
      using upd False by simp
    have lp: "loop (p # rest) (tf, tr) w = loop rest (tf, tr) w1"
      using upd False by simp
    have out: "stdout w' = stdout w @ (errs @ out)"
      using ih(2) errs(1) by simp
    show ?thesis
      apply (rule exI [of _ w'])
      apply (rule exI [of _ "errs @ out"])
      using lp ih ret out errs(2) False by simp
  qed
qed

section \<open>The enumeration\<close>

lemma rglob_member:
  "p \<in> set (rglob_mdx t root) \<Longrightarrow>
     strict_prefix root p \<and> matches_mdx (name p) \<and> scanned t root p \<and> p \<in> fst ` set t"
  by (auto simp: rglob_mdx_def split: option.splits node.splits)

lemma distinct_rglob: "distinct (rglob_mdx t root)"
  by (simp add: rglob_mdx_def split: option.splits node.splits)



lemma same_tree_refl: "same_tree t t"
  by (simp add: same_tree_def)

lemma same_tree_trans: "same_tree t t' \<Longrightarrow> same_tree t' t'' \<Longrightarrow> same_tree t t''"
  by (simp add: same_tree_def)

lemma rglob_same_tree:
  assumes "same_tree t t'"
  shows "rglob_mdx t' root = rglob_mdx t root"
proof -
  have k: "map fst t' = map fst t"
    and d: "\<And>q l. map_of t' q = Some (Dir l) \<longleftrightarrow> map_of t q = Some (Dir l)"
    using assms by (simp_all add: same_tree_def)
  have s: "scanned t' root p = scanned t root p" for p
    by (simp add: scanned_def d)
  show ?thesis
  proof (cases "\<exists>l. map_of t root = Some (Dir l)")
    case True
    then obtain l where "map_of t root = Some (Dir l)" by blast
    moreover from this have "map_of t' root = Some (Dir l)" using d by simp
    ultimately show ?thesis by (simp add: rglob_mdx_def k s)
  next
    case False
    then have "\<forall>l. map_of t' root \<noteq> Some (Dir l)" using d by simp
    with False show ?thesis
      by (auto simp: rglob_mdx_def split: option.splits node.splits)
  qed
qed

lemma same_tree_update: "same_tree (files w) (files (snd (update_year_in_file p w)))"
  by (auto simp: same_tree_def update_files map_of_store map_fst_store
      split: option.splits node.splits bool.splits)

lemma update_yield_self: "yield_of (map_of (files (snd (update_year_in_file p w))) p) = 0"
  by (auto simp: update_files map_of_store yield_of_def str_count_after_replace
      split: option.splits node.splits bool.splits)

lemma update_files_zero:
  "yield_of (map_of (files w) p) = 0 \<Longrightarrow> files (snd (update_year_in_file p w)) = files w"
  by (auto simp: update_files yield_of_def split: option.splits node.splits bool.splits)

section \<open>The loop\<close>

lemma loop_frame:
  "loop ps (tf, tr) w = (r, w') \<Longrightarrow>
     (\<exists>new. opened w' = opened w @ new \<and> fst ` set new \<subseteq> set ps) \<and>
     (\<forall>q. q \<notin> set ps \<longrightarrow> map_of (files w') q = map_of (files w) q) \<and>
     same_tree (files w) (files w')"
proof (induction ps arbitrary: tf tr w)
  case Nil
  then show ?case by (simp add: same_tree_refl)
next
  case (Cons p rest)
  let ?n = "yield_of (map_of (files w) p)"
  define w1 where "w1 = snd (update_year_in_file p w)"
  have upd: "update_year_in_file p w = (Inr ?n, w1)"
    unfolding w1_def by (rule update_eq)
  obtain new1 where new1: "opened w1 = opened w @ new1" "fst ` set new1 \<subseteq> {p}"
    unfolding w1_def using update_opened by blast
  have other: "\<And>q. q \<noteq> p \<Longrightarrow> map_of (files w1) q = map_of (files w) q"
    unfolding w1_def by (rule update_map_of_other)
  have tree1: "same_tree (files w) (files w1)"
    unfolding w1_def by (rule same_tree_update)
  have step: "(\<exists>new. opened w' = opened w1 @ new \<and> fst ` set new \<subseteq> set rest) \<and>
     (\<forall>q. q \<notin> set rest \<longrightarrow> map_of (files w') q = map_of (files w1) q) \<and>
     same_tree (files w1) (files w')"
  proof (cases "0 < ?n")
    case True
    show ?thesis
    proof (cases "relative_to p base_dir")
      case (Inl e)
      then have "w' = w1" using Cons.prems upd True by simp
      then show ?thesis by (simp add: same_tree_refl)
    next
      case (Inr rel)
      then have "loop rest (tf + 1, tr + ?n) (print (OK rel ?n) w1) = (r, w')"
        using Cons.prems upd True by simp
      from Cons.IH [OF this] show ?thesis by simp
    qed
  next
    case False
    then have "loop rest (tf, tr) w1 = (r, w')"
      using Cons.prems upd by simp
    from Cons.IH [OF this] show ?thesis by simp
  qed
  then obtain new where new: "opened w' = opened w1 @ new" "fst ` set new \<subseteq> set rest"
    by blast
  have "opened w' = opened w @ (new1 @ new)" using new(1) new1(1) by simp
  moreover have "fst ` set (new1 @ new) \<subseteq> set (p # rest)" using new(2) new1(2) by auto
  ultimately have a: "\<exists>new. opened w' = opened w @ new \<and> fst ` set new \<subseteq> set (p # rest)"
    by blast
  have b: "\<forall>q. q \<notin> set (p # rest) \<longrightarrow> map_of (files w') q = map_of (files w) q"
    using step other by simp
  have c: "same_tree (files w) (files w')"
    using step tree1 same_tree_trans by blast
  from a b c show ?case by blast
qed

lemma loop_settles:
  assumes "\<forall>p\<in>set ps. prefix base_dir p" "loop ps (tf, tr) w = (r, w')"
  shows "\<forall>q\<in>set ps. yield_of (map_of (files w') q) = 0"
  using assms
proof (induction ps arbitrary: tf tr w)
  case Nil
  then show ?case by simp
next
  case (Cons p rest)
  let ?n = "yield_of (map_of (files w) p)"
  define w1 where "w1 = snd (update_year_in_file p w)"
  have upd: "update_year_in_file p w = (Inr ?n, w1)"
    unfolding w1_def by (rule update_eq)
  have rel: "relative_to p base_dir = Inr (drop (length base_dir) p)"
    using Cons.prems by (simp add: relative_to_base)
  have rest: "\<forall>q\<in>set rest. prefix base_dir q" using Cons.prems by simp
  have self: "yield_of (map_of (files w1) p) = 0"
    unfolding w1_def by (rule update_yield_self)
  obtain a b w2 where lp: "loop rest (a, b) w2 = (r, w')" and w2: "files w2 = files w1"
  proof (cases "0 < ?n")
    case True
    then have "loop rest (tf + 1, tr + ?n) (print (OK (drop (length base_dir) p) ?n) w1) = (r, w')"
      using Cons.prems(2) upd rel by simp
    then show ?thesis using that by simp
  next
    case False
    then have "loop rest (tf, tr) w1 = (r, w')"
      using Cons.prems(2) upd by simp
    then show ?thesis using that by simp
  qed
  have ih: "\<forall>q\<in>set rest. yield_of (map_of (files w') q) = 0"
    using Cons.IH [OF rest lp] .
  have "yield_of (map_of (files w') p) = 0"
  proof (cases "p \<in> set rest")
    case True
    then show ?thesis using ih by simp
  next
    case False
    then have "map_of (files w') p = map_of (files w2) p"
      using loop_frame [OF lp] by simp
    then show ?thesis using self w2 by simp
  qed
  then show ?case using ih by simp
qed

lemma loop_all_zero:
  assumes "\<forall>q\<in>set ps. yield_of (map_of (files w) q) = 0"
  shows "\<exists>w' errs. loop ps (tf, tr) w = (Inr (tf, tr), w') \<and> files w' = files w \<and>
      stdout w' = stdout w @ errs \<and> filter is_OK errs = []"
  using assms
proof (induction ps arbitrary: w)
  case Nil
  then show ?case by simp
next
  case (Cons p rest)
  define w1 where "w1 = snd (update_year_in_file p w)"
  have zero: "yield_of (map_of (files w) p) = 0" using Cons.prems by simp
  have upd: "update_year_in_file p w = (Inr 0, w1)"
    unfolding w1_def using update_eq [of p w] zero by simp
  have f1: "files w1 = files w"
    unfolding w1_def using zero by (rule update_files_zero)
  obtain errs1 where errs1: "stdout w1 = stdout w @ errs1" "filter is_OK errs1 = []"
    unfolding w1_def using update_stdout by blast
  have "\<forall>q\<in>set rest. yield_of (map_of (files w1) q) = 0"
    using Cons.prems f1 by simp
  from Cons.IH [OF this] obtain w' errs where ih:
    "loop rest (tf, tr) w1 = (Inr (tf, tr), w')" "files w' = files w1"
    "stdout w' = stdout w1 @ errs" "filter is_OK errs = []"
    by blast
  have "loop (p # rest) (tf, tr) w = (Inr (tf, tr), w')" using upd ih(1) by simp
  moreover have "files w' = files w" using ih(2) f1 by simp
  moreover have "stdout w' = stdout w @ (errs1 @ errs)" using ih(3) errs1(1) by simp
  moreover have "filter is_OK (errs1 @ errs) = []" using ih(4) errs1(2) by simp
  ultimately show ?case by blast
qed

section \<open>Properties of the program\<close>







lemma main_eq:
  "loop (rglob_mdx (files w) base_dir) (0, 0) w = (Inr (a, b), w1) \<Longrightarrow>
     main w = (Inr (), w1\<lparr>stdout := stdout w1 @ summary a b\<rparr>)"
  by (simp add: main_def summary_def print_def)

lemma rglob_below_base: "\<forall>p\<in>set (rglob_mdx t base_dir). prefix base_dir p"
  using rglob_member by (auto simp: strict_prefix_def)

text \<open>
  C3: a file whose content holds no occurrence of the year is opened once, for reading,
  and never for writing; its content stays, 0 is returned, no per-file line is printed,
  and the loop goes on with both counters unchanged.
\<close>

theorem untouched_if_absent:
  assumes "map_of (files w) p = Some (File r wr (Some c))" and "occurrences c = []"
  shows "\<exists>w1. update_year_in_file p w = (Inr 0, w1) \<and>
      files w1 = files w \<and>
      opened w1 = opened w @ [(p, ModeR)] \<and>
      filter is_OK (stdout w1) = filter is_OK (stdout w) \<and>
      loop (p # rest) (total_files, total_replacements) w =
        loop rest (total_files, total_replacements) w1"
proof -
  have cnt: "str_count c (lit ''2025'') = 0" using assms(2) by (simp add: str_count_occurrences)
  define w1 where "w1 = snd (update_year_in_file p w)"
  have y: "yield_of (map_of (files w) p) = 0" using assms(1) cnt by (simp add: yield_of_def)
  then have upd: "update_year_in_file p w = (Inr 0, w1)"
    unfolding w1_def using update_eq [of p w] by simp
  have f: "files w1 = files w" unfolding w1_def using y by (rule update_files_zero)
  have o: "opened w1 = opened w @ [(p, ModeR)]"
    unfolding w1_def using assms(1) cnt
    by (simp add: update_year_in_file_def try_body_cases)
  obtain errs where "stdout w1 = stdout w @ errs" "filter is_OK errs = []"
    unfolding w1_def using update_stdout by blast
  then have s: "filter is_OK (stdout w1) = filter is_OK (stdout w)" by simp
  have "loop (p # rest) (total_files, total_replacements) w =
        loop rest (total_files, total_replacements) w1"
    using upd by simp
  with upd f o s show ?thesis by blast
qed

text \<open>
  C3 on a file holding \<open>no year here\<close>.
\<close>

theorem untouched_if_absent_witness:
  "map_of (files absent_world) [lit ''b.mdx''] = Some (File True True (Some (lit ''no year here''))) \<and>
   occurrences (lit ''no year here'') = [] \<and>
   (\<exists>w1. update_year_in_file [lit ''b.mdx''] absent_world = (Inr 0, w1) \<and>
      files w1 = files absent_world \<and>
      opened w1 = opened absent_world @ [([lit ''b.mdx''], ModeR)] \<and>
      filter is_OK (stdout w1) = filter is_OK (stdout absent_world) \<and>
      loop [[lit ''b.mdx'']] (0, 0) absent_world = loop [] (0, 0) w1)"
proof -
  have h1: "map_of (files absent_world) [lit ''b.mdx''] =
      Some (File True True (Some (lit ''no year here'')))"
    by (simp add: absent_world_def)
  have h2: "occurrences (lit ''no year here'') = []" by code_simp
  from untouched_if_absent [OF h1 h2, of "[]" 0 0] h1 h2 show ?thesis by blast
qed






lemma sum_ok_count_filter: "sum_list (map ok_count (filter is_OK ls)) = sum_list (map ok_count ls)"
proof (induction ls)
  case Nil
  then show ?case by simp
next
  case (Cons l ls)
  then show ?case by (cases l) simp_all
qed

lemma sum_ok_count_map:
  "sum_list (map ok_count (map (\<lambda>(p, n). OK (f p) n) xs)) = sum_list (map snd xs)"
  by (induction xs) auto

lemma main_run:
  "\<exists>body w1.
      main w = (Inr (), w1) \<and>
      stdout w1 = stdout w @ body @
        summary (int (length (filter (\<lambda>(p, n). 0 < n) (returned (rglob_mdx (files w) base_dir) w))))
                (sum_list (map snd (filter (\<lambda>(p, n). 0 < n) (returned (rglob_mdx (files w) base_dir) w)))) \<and>
      filter is_OK body =
        map (\<lambda>(p, n). OK (drop (length base_dir) p) n)
          (filter (\<lambda>(p, n). 0 < n) (returned (rglob_mdx (files w) base_dir) w)) \<and>
      map fst (returned (rglob_mdx (files w) base_dir) w) = rglob_mdx (files w) base_dir"
proof -
  let ?ps = "rglob_mdx (files w) base_dir"
  let ?pos = "filter (\<lambda>(p, n). 0 < n) (returned ?ps w)"
  from loop_master [OF rglob_below_base, of "files w" 0 0 w]
  obtain w' out where l:
    "loop ?ps (0, 0) w = (Inr (int (length ?pos), sum_list (map snd ?pos)), w')"
    "stdout w' = stdout w @ out"
    "filter is_OK out = map (\<lambda>(p, n). OK (drop (length base_dir) p) n) ?pos"
    "map fst (returned ?ps w) = ?ps"
    by auto
  have "main w = (Inr (), w'\<lparr>stdout := stdout w' @ summary (int (length ?pos)) (sum_list (map snd ?pos))\<rparr>)"
    using l(1) by (rule main_eq)
  moreover have "stdout (w'\<lparr>stdout := stdout w' @ summary (int (length ?pos)) (sum_list (map snd ?pos))\<rparr>)
      = stdout w @ out @ summary (int (length ?pos)) (sum_list (map snd ?pos))"
    using l(2) by simp
  ultimately show ?thesis using l(3,4) by blast
qed

text \<open>
  C6: every run ends normally with the summary block; the total of replacements it
  shows is the sum of the counts on the per-file lines printed before it, and the total
  of files is the number of enumerated files for which \<open>update_year_in_file\<close> returned
  a positive count. Every enumerated file has a returned value.
\<close>

theorem summary_totals_consistent:
  "\<exists>body total_files total_replacements w1.
      main w = (Inr (), w1) \<and>
      stdout w1 = stdout w @ body @
        [Rule_after_blank, Resumen, Archivos_actualizados total_files,
         Total_de_reemplazos total_replacements, Rule] \<and>
      total_replacements = sum_list (map ok_count body) \<and>
      total_files =
        int (length (filter (\<lambda>(p, n). 0 < n) (returned (rglob_mdx (files w) base_dir) w))) \<and>
      map fst (returned (rglob_mdx (files w) base_dir) w) = rglob_mdx (files w) base_dir"
proof -
  let ?pos = "filter (\<lambda>(p, n). 0 < n) (returned (rglob_mdx (files w) base_dir) w)"
  from main_run [of w] obtain body w1 where m:
    "main w = (Inr (), w1)"
    "stdout w1 = stdout w @ body @ summary (int (length ?pos)) (sum_list (map snd ?pos))"
    "filter is_OK body = map (\<lambda>(p, n). OK (drop (length base_dir) p) n) ?pos"
    "map fst (returned (rglob_mdx (files w) base_dir) w) = rglob_mdx (files w) base_dir"
    by blast
  have "sum_list (map ok_count body) = sum_list (map ok_count (filter is_OK body))"
    by (simp add: sum_ok_count_filter)
  also have "\<dots> = sum_list (map snd ?pos)"
    unfolding m(3) by (rule sum_ok_count_map)
  finally have s: "sum_list (map snd ?pos) = sum_list (map ok_count body)" by simp
  show ?thesis
    using m(1,2,4) s unfolding summary_def by metis
qed

text \<open>
  C7: the per-file lines of a run are, in order, those of the enumerated files with a
  positive returned count; so for every enumerated file a per-file line with its relative
  path is printed if and only if the count returned for it is positive.
\<close>

theorem updated_line_iff_positive:
  "\<exists>body w1.
      main w = (Inr (), w1) \<and>
      (\<exists>total_files total_replacements.
         stdout w1 = stdout w @ body @ summary total_files total_replacements) \<and>
      filter is_OK body =
        map (\<lambda>(p, n). OK (drop (length base_dir) p) n)
          (filter (\<lambda>(p, n). 0 < n) (returned (rglob_mdx (files w) base_dir) w)) \<and>
      (\<forall>(p, n) \<in> set (returned (rglob_mdx (files w) base_dir) w).
         (\<exists>m. OK (drop (length base_dir) p) m \<in> set body) \<longleftrightarrow> 0 < n)"
proof -
  let ?ps = "rglob_mdx (files w) base_dir"
  let ?ret = "returned ?ps w"
  let ?pos = "filter (\<lambda>(p, n). 0 < n) ?ret"
  from main_run [of w] obtain body w1 where m:
    "main w = (Inr (), w1)"
    "stdout w1 = stdout w @ body @ summary (int (length ?pos)) (sum_list (map snd ?pos))"
    "filter is_OK body = map (\<lambda>(p, n). OK (drop (length base_dir) p) n) ?pos"
    "map fst ?ret = ?ps"
    by blast
  have dist: "distinct (map fst ?ret)" using m(4) distinct_rglob by simp
  have below: "prefix base_dir q" if "(q, k) \<in> set ?ret" for q k
  proof -
    have "q \<in> set (map fst ?ret)" using that by force
    then show ?thesis using m(4) rglob_below_base by simp
  qed
  have iff: "(\<exists>k. OK (drop (length base_dir) p) k \<in> set body) \<longleftrightarrow> 0 < n"
    if pn: "(p, n) \<in> set ?ret" for p n
  proof
    assume "0 < n"
    then have "(p, n) \<in> set ?pos" using pn by simp
    then have "OK (drop (length base_dir) p) n \<in> set (filter is_OK body)"
      unfolding m(3) by force
    then show "\<exists>k. OK (drop (length base_dir) p) k \<in> set body" by auto
  next
    assume "\<exists>k. OK (drop (length base_dir) p) k \<in> set body"
    then obtain k where "OK (drop (length base_dir) p) k \<in> set (filter is_OK body)" by auto
    then obtain q k' where q: "(q, k') \<in> set ?pos"
      "OK (drop (length base_dir) q) k' = OK (drop (length base_dir) p) k"
      unfolding m(3) by auto
    have qr: "(q, k') \<in> set ?ret" "0 < k'" using q(1) by simp_all
    have "drop (length base_dir) q = drop (length base_dir) p" using q(2) by simp
    moreover have "prefix base_dir q" "prefix base_dir p" using below qr(1) pn by blast+
    ultimately have "q = p" by (metis append_take_drop_id prefix_def append_eq_conv_conj)
    then have "k' = n" using dist qr(1) pn by (meson eq_key_imp_eq_value)
    then show "0 < n" using qr(2) by simp
  qed
  show ?thesis using m(1,2,3) iff by blast
qed

text \<open>
  C7 on a tree with one file holding the year and one without.
\<close>

theorem updated_line_iff_positive_witness:
  "(base_dir @ [lit ''a.mdx''], 1) \<in> set (returned (rglob_mdx (files run_world) base_dir) run_world) \<and>
   (\<exists>body w1. main run_world = (Inr (), w1) \<and>
      (\<exists>total_files total_replacements.
         stdout w1 = stdout run_world @ body @ summary total_files total_replacements) \<and>
      (\<exists>m. OK [lit ''a.mdx''] m \<in> set body))"
proof -
  have h: "(base_dir @ [lit ''a.mdx''], 1) \<in>
      set (returned (rglob_mdx (files run_world) base_dir) run_world)"
    by code_simp
  from updated_line_iff_positive [of run_world] obtain body w1 where m:
    "main run_world = (Inr (), w1)"
    "\<exists>total_files total_replacements.
         stdout w1 = stdout run_world @ body @ summary total_files total_replacements"
    "\<forall>(p, n) \<in> set (returned (rglob_mdx (files run_world) base_dir) run_world).
         (\<exists>m. OK (drop (length base_dir) p) m \<in> set body) \<longleftrightarrow> 0 < n"
    by blast
  from m(3) h have "\<exists>m. OK (drop (length base_dir) (base_dir @ [lit ''a.mdx''])) m \<in> set body"
    by fastforce
  then have "\<exists>m. OK [lit ''a.mdx''] m \<in> set body" by simp
  with h m(1,2) show ?thesis by blast
qed



text \<open>
  C2: after the replacement no occurrence of the year is left in a content, so counting
  again gives 0; a second call of \<open>update_year_in_file\<close> on the same file returns 0 and
  leaves the files as they are; and a second run of \<open>main\<close> prints no per-file line and a
  summary of 0 files and 0 replacements.
\<close>

theorem second_run_replaces_nothing:
  "occurrences (str_replace c (lit ''2025'') (lit ''2026'')) = [] \<and>
   str_count (str_replace c (lit ''2025'') (lit ''2026'')) (lit ''2025'') = 0 \<and>
   fst (update_year_in_file p (snd (update_year_in_file p w))) = Inr 0 \<and>
   files (snd (update_year_in_file p (snd (update_year_in_file p w)))) =
     files (snd (update_year_in_file p w)) \<and>
   (\<exists>w2 errs. main (snd (main w)) = (Inr (), w2) \<and>
      files w2 = files (snd (main w)) \<and>
      stdout w2 = stdout (snd (main w)) @ errs @
        [Rule_after_blank, Resumen, Archivos_actualizados 0, Total_de_reemplazos 0, Rule] \<and>
      filter is_OK errs = [])"
proof -
  let ?u = "snd (update_year_in_file p w)"
  have z: "yield_of (map_of (files ?u) p) = 0" by (rule update_yield_self)
  have a: "fst (update_year_in_file p ?u) = Inr 0" using update_returns [of p ?u] z by simp
  have b: "files (snd (update_year_in_file p ?u)) = files ?u" using z by (rule update_files_zero)
  let ?ps = "rglob_mdx (files w) base_dir"
  obtain r w1 where l: "loop ?ps (0, 0) w = (r, w1)" by (cases "loop ?ps (0, 0) w")
  have fm: "files (snd (main w)) = files w1"
    using l by (cases r) (auto simp: main_def)
  have same: "rglob_mdx (files w1) base_dir = ?ps"
    using loop_frame [OF l] rglob_same_tree by blast
  have "\<forall>q\<in>set ?ps. yield_of (map_of (files w1) q) = 0"
    using loop_settles [OF rglob_below_base l] .
  then have "\<forall>q\<in>set (rglob_mdx (files (snd (main w))) base_dir).
      yield_of (map_of (files (snd (main w))) q) = 0"
    using fm same by simp
  from loop_all_zero [OF this, of 0 0] obtain w' errs where s:
    "loop (rglob_mdx (files (snd (main w))) base_dir) (0, 0) (snd (main w)) = (Inr (0, 0), w')"
    "files w' = files (snd (main w))"
    "stdout w' = stdout (snd (main w)) @ errs" "filter is_OK errs = []"
    by blast
  have "main (snd (main w)) = (Inr (), w'\<lparr>stdout := stdout w' @ summary 0 0\<rparr>)"
    using s(1) by (rule main_eq)
  moreover have "files (w'\<lparr>stdout := stdout w' @ summary 0 0\<rparr>) = files (snd (main w))"
    using s(2) by simp
  moreover have "stdout (w'\<lparr>stdout := stdout w' @ summary 0 0\<rparr>) =
      stdout (snd (main w)) @ errs @
        [Rule_after_blank, Resumen, Archivos_actualizados 0, Total_de_reemplazos 0, Rule]"
    using s(3) by (simp add: summary_def)
  ultimately have c: "\<exists>w2 errs. main (snd (main w)) = (Inr (), w2) \<and>
      files w2 = files (snd (main w)) \<and>
      stdout w2 = stdout (snd (main w)) @ errs @
        [Rule_after_blank, Resumen, Archivos_actualizados 0, Total_de_reemplazos 0, Rule] \<and>
      filter is_OK errs = []"
    using s(4) by blast
  show ?thesis
    using occurrences_after_replace [of c] str_count_after_replace [of c] a b c by blast
qed

text \<open>
  C9: the replaced content that \<open>update_year_in_file\<close> computes has the length of the
  original content, and the content of the file has the same length after the call as
  before it, whether or not a replacement took place.
\<close>

theorem replaced_content_same_length:
  "length (str_replace content (lit ''2025'') (lit ''2026'')) = length content \<and>
   content_length (map_of (files (snd (update_year_in_file p w))) p) =
     content_length (map_of (files w) p)"
proof -
  have "content_length (map_of (files (snd (update_year_in_file p w))) p) =
     content_length (map_of (files w) p)"
    by (auto simp: update_files map_of_store content_length_def length_str_replace
        split: option.splits node.splits bool.splits)
  then show ?thesis by (simp add: length_str_replace)
qed

text \<open>
  No path is enumerated twice, so the value returned for a file during the run is the one
  its content at the start of the run gives.
\<close>

lemma returned_from_start:
  assumes "distinct ps" and "\<forall>p\<in>set ps. prefix base_dir p"
  shows "returned ps w = map (\<lambda>p. (p, yield_of (map_of (files w) p))) ps"
  using assms
proof (induction ps arbitrary: w)
  case Nil
  then show ?case by simp
next
  case (Cons p rest)
  let ?n = "yield_of (map_of (files w) p)"
  define w1 where "w1 = snd (update_year_in_file p w)"
  have upd: "update_year_in_file p w = (Inr ?n, w1)"
    unfolding w1_def by (rule update_eq)
  have rel: "relative_to p base_dir = Inr (drop (length base_dir) p)"
    using Cons.prems by (simp add: relative_to_base)
  have d: "distinct rest" "\<forall>q\<in>set rest. prefix base_dir q" "p \<notin> set rest"
    using Cons.prems by simp_all
  have other: "map_of (files w1) q = map_of (files w) q" if "q \<in> set rest" for q
    unfolding w1_def using that d(3) by (intro update_map_of_other) auto
  have same: "map (\<lambda>q. (q, yield_of (map_of (files w1) q))) rest =
      map (\<lambda>q. (q, yield_of (map_of (files w) q))) rest"
    using other by simp
  have r1: "returned rest w1 = map (\<lambda>q. (q, yield_of (map_of (files w) q))) rest"
    using Cons.IH [OF d(1,2), of w1] same by simp
  have r2: "returned rest (print l w1) = map (\<lambda>q. (q, yield_of (map_of (files w) q))) rest" for l
    using Cons.IH [OF d(1,2), of "print l w1"] same by simp
  show ?case using upd rel r1 r2 by simp
qed

text \<open>
  For other strings the replacement can create a new occurrence, although the target
  differs from the source and does not contain it: \<open>aab\<close> with \<open>ab\<close> replaced by
  \<open>b\<close> is \<open>ab\<close>. The year does not overlap itself and the two years have the same
  length, which is what \<open>no_occurrence_after_replace\<close> uses.
\<close>

lemma replace_in_general_not_idempotent:
  "lit ''ab'' \<noteq> lit ''b'' \<and> \<not> sublist (lit ''ab'') (lit ''b'') \<and>
   str_count (str_replace (lit ''aab'') (lit ''ab'') (lit ''b'')) (lit ''ab'') = 1"
  by code_simp

text \<open>
  The run on the example of the specification: one line for \<open>a.mdx\<close> with count 2, the
  summary 1 and 2, and \<open>c.txt\<close> never opened.
\<close>

lemma spec_example_run:
  "main spec_example =
     (Inr (),
      \<lparr>files =
         [(base_dir, Dir True),
          (base_dir @ [lit ''a.mdx''],
             File True True (Some (lit ''Copyright 2026. Valid through 2026.''))),
          (base_dir @ [lit ''b.mdx''], File True True (Some (lit ''no year here''))),
          (base_dir @ [lit ''c.txt''], File True True (Some (lit ''2025'')))],
       stdout =
         [OK [lit ''a.mdx''] 2, Rule_after_blank, Resumen, Archivos_actualizados 1,
          Total_de_reemplazos 2, Rule],
       opened =
         [(base_dir @ [lit ''a.mdx''], ModeR), (base_dir @ [lit ''a.mdx''], ModeW),
          (base_dir @ [lit ''b.mdx''], ModeR)]\<rparr>)"
  by code_simp

end
